theory Spec2Isabelle
  imports Main "HOL-Library.Sublist" "HOL-Library.List_Lexorder" "HOL-Library.Char_ord"
    "HOL-Library.Product_Lexorder" "HOL-Library.Multiset"
begin

section \<open>Python strings\<close>

text \<open>
  A Python \<open>str\<close> is a sequence of code points and \<open>len\<close> counts them. The model
  takes \<^typ>\<open>string\<close> with one \<^typ>\<open>char\<close> per code point, which covers the code
  points 0 to 255 (ASCII and Latin-1). On this range \<open>str.lower\<close> maps every
  character to one character, and \<open>str.isspace\<close> holds of the twelve characters
  listed below.
\<close>

definition is_space :: "char \<Rightarrow> bool" where
  "is_space c =
     (let n = (of_char c :: nat)
      in (9 \<le> n \<and> n \<le> 13) \<or> (28 \<le> n \<and> n \<le> 32) \<or> n = 133 \<or> n = 160)"

definition lower_char :: "char \<Rightarrow> char" where
  "lower_char c =
     (let n = (of_char c :: nat)
      in if (65 \<le> n \<and> n \<le> 90) \<or> (192 \<le> n \<and> n \<le> 222 \<and> n \<noteq> 215)
         then char_of (n + 32) else c)"

text \<open>\<open>s.lower()\<close>\<close>

definition lower :: "string \<Rightarrow> string" where
  "lower s = map lower_char s"

text \<open>\<open>s.strip()\<close>\<close>

definition strip :: "string \<Rightarrow> string" where
  "strip s = rev (dropWhile is_space (rev (dropWhile is_space s)))"

text \<open>\<open>s.startswith(p)\<close>\<close>

definition startswith :: "string \<Rightarrow> string \<Rightarrow> bool" where
  "startswith s p = (take (length p) s = p)"

text \<open>\<open>sub in s\<close> for strings: \<open>sub\<close> occurs in \<open>s\<close> as a contiguous run.\<close>

fun py_in :: "string \<Rightarrow> string \<Rightarrow> bool" where
  "py_in sub [] = (sub = [])"
| "py_in sub (c # cs) = (startswith (c # cs) sub \<or> py_in sub cs)"

text \<open>
  \<open>s.split()\<close> with no argument: the maximal runs of characters that are not
  whitespace. The first argument is the word read so far.
\<close>

fun split_from :: "string \<Rightarrow> string \<Rightarrow> string list" where
  "split_from w [] = (if w = [] then [] else [w])"
| "split_from w (c # cs) =
     (if is_space c then (if w = [] then split_from [] cs else w # split_from [] cs)
      else split_from (w @ [c]) cs)"

definition split :: "string \<Rightarrow> string list" where
  "split s = split_from [] s"

text \<open>A word: a string that is not empty and has no whitespace.\<close>

definition is_word :: "string \<Rightarrow> bool" where
  "is_word w = (w \<noteq> [] \<and> (\<forall>c\<in>set w. \<not> is_space c))"

text \<open>\<open>sep.join(parts)\<close>\<close>

fun join :: "string \<Rightarrow> string list \<Rightarrow> string" where
  "join sep [] = []"
| "join sep [x] = x"
| "join sep (x # y # ys) = x @ sep @ join sep (y # ys)"

text \<open>
  \<open>s.replace(old, '')\<close>: the occurrences of \<open>old\<close> are found from the left and do
  not overlap. With an empty \<open>old\<close> and an empty replacement Python returns \<open>s\<close>.
\<close>

function remove_all :: "string \<Rightarrow> string \<Rightarrow> string" where
  "remove_all old [] = []"
| "remove_all old (c # cs) =
     (if old \<noteq> [] \<and> startswith (c # cs) old
      then remove_all old (drop (length old) (c # cs))
      else c # remove_all old cs)"
  by pat_completeness auto
termination
  by (relation "measure (\<lambda>(old, s). length s)") auto

section \<open>Records of the scraper\<close>

text \<open>The dictionaries \<open>{"title": ..., "url": ...}\<close> built by the link extractor.\<close>

record anime =
  title :: string
  url :: string

section \<open>Title cleaner\<close>

definition unwanted_patterns :: "string list" where
  "unwanted_patterns =
     [''Sub Indo'', ''Subtitle Indonesia'', ''Episode'', ''Batch'',
      ''Download'', ''Streaming'', ''Watch'', ''Online'']"

text \<open>
  The loop \<open>for pattern in unwanted_patterns\<close> of \<open>clean_title\<close>: each pattern is
  removed as written and then in lower case.
\<close>

fun remove_patterns :: "string list \<Rightarrow> string \<Rightarrow> string" where
  "remove_patterns [] cleaned = cleaned"
| "remove_patterns (pattern # ps) cleaned =
     remove_patterns ps (remove_all (lower pattern) (remove_all pattern cleaned))"

definition clean_title :: "string \<Rightarrow> string" where
  "clean_title t =
     (let cleaned = strip t;
          cleaned = remove_patterns unwanted_patterns cleaned;
          cleaned = join '' '' (split cleaned)
      in if length cleaned > 2 then cleaned else strip t)"

section \<open>Categorizer\<close>

record categorized =
  ongoing :: "anime list"
  completed :: "anime list"
  movies :: "anime list"

text \<open>The loop of \<open>categorize_anime\<close>, appending each record to one list of \<open>data\<close>.\<close>

fun categorize_loop :: "anime list \<Rightarrow> categorized \<Rightarrow> categorized" where
  "categorize_loop [] data = data"
| "categorize_loop (a # rest) data =
     (let title_lower = lower (title a);
          url_lower = lower (url a)
      in if py_in ''movie'' title_lower \<or> py_in ''movie'' url_lower \<or> py_in ''film'' url_lower
         then categorize_loop rest (data\<lparr>movies := movies data @ [a]\<rparr>)
         else if list_ex (\<lambda>keyword. py_in keyword title_lower)
                   [''season 2'', ''season 3'', ''season 4'', ''s2'', ''s3'', ''s4'',
                    ''part 2'', ''part 3'']
         then categorize_loop rest (data\<lparr>ongoing := ongoing data @ [a]\<rparr>)
         else if list_ex (\<lambda>keyword. py_in keyword title_lower)
                   [''2025'', ''2024'', ''ongoing'', ''airing'']
         then categorize_loop rest (data\<lparr>ongoing := ongoing data @ [a]\<rparr>)
         else categorize_loop rest (data\<lparr>completed := completed data @ [a]\<rparr>))"

text \<open>
  The three conditions of the loop, named: the movie rule, and the two rules that
  send a record to \<open>ongoing\<close>.
\<close>

definition movie_rule :: "anime \<Rightarrow> bool" where
  "movie_rule a =
     (py_in ''movie'' (lower (title a)) \<or> py_in ''movie'' (lower (url a))
      \<or> py_in ''film'' (lower (url a)))"

definition sequel_rule :: "anime \<Rightarrow> bool" where
  "sequel_rule a =
     list_ex (\<lambda>keyword. py_in keyword (lower (title a)))
       [''season 2'', ''season 3'', ''season 4'', ''s2'', ''s3'', ''s4'', ''part 2'', ''part 3'']"

definition recency_rule :: "anime \<Rightarrow> bool" where
  "recency_rule a =
     list_ex (\<lambda>keyword. py_in keyword (lower (title a)))
       [''2025'', ''2024'', ''ongoing'', ''airing'']"

definition categorize_anime :: "anime list \<Rightarrow> categorized" where
  "categorize_anime anime_list =
     categorize_loop anime_list \<lparr>ongoing = [], completed = [], movies = []\<rparr>"

section \<open>Deduplicator\<close>

text \<open>The key of a record, \<open>anime['title'].lower().strip()\<close>.\<close>

definition title_key :: "anime \<Rightarrow> string" where
  "title_key a = strip (lower (title a))"

text \<open>The loop of \<open>remove_duplicates\<close> with its set \<open>seen\<close> and its list \<open>unique_anime\<close>.\<close>

fun dedup_loop :: "anime list \<Rightarrow> string set \<Rightarrow> anime list \<Rightarrow> anime list" where
  "dedup_loop [] seen unique_anime = unique_anime"
| "dedup_loop (a # rest) seen unique_anime =
     (let k = title_key a
      in if k \<notin> seen \<and> length k > 2
         then dedup_loop rest (insert k seen) (unique_anime @ [a])
         else dedup_loop rest seen unique_anime)"

definition remove_duplicates :: "anime list \<Rightarrow> anime list" where
  "remove_duplicates anime_list = dedup_loop anime_list {} []"

section \<open>Parsed documents\<close>

text \<open>
  The scraper reads a parsed page through three queries of the HTML library. An
  element is modelled by what the scraper reads of it: its \<open>href\<close> attribute and, in
  document order, the text strings below it. A parsed page is modelled by the
  answers it gives: \<open>anchors\<close> is \<open>soup.find_all('a', href=True)\<close> and \<open>select\<close> is
  \<open>soup.select(selector)\<close>.
\<close>

record element =
  href :: string
  strings :: "string list"

record soup =
  anchors :: "element list"
  select :: "string \<Rightarrow> element list"

text \<open>
  \<open>e.get_text(strip=True)\<close>: every text string is stripped, the empty ones are
  skipped and the others are concatenated with no separator.
\<close>

definition get_text :: "element \<Rightarrow> string" where
  "get_text e = concat (filter (\<lambda>t. t \<noteq> []) (map strip (strings e)))"

section \<open>Link extractor\<close>

fun anime_links_loop :: "element list \<Rightarrow> anime list \<Rightarrow> anime list" where
  "anime_links_loop [] anime_list = anime_list"
| "anime_links_loop (link # links) anime_list =
     (let h = href link;
          t = get_text link
      in if (py_in ''sub-indo'' (lower h) \<or> py_in ''subtitle-indonesia'' (lower h))
            \<and> t \<noteq> [] \<and> length t > 3
            \<and> py_in ''meownime.ltd'' h
            \<and> \<not> list_ex (\<lambda>skip. py_in skip (lower h))
                  [''facebook'', ''faq'', ''genre'', ''jadwal'', ''anime-list'']
         then (let t = strip t
               in if t \<noteq> [] \<and> length t > 2
                  then anime_links_loop links (anime_list @ [\<lparr>title = t, url = h\<rparr>])
                  else anime_links_loop links anime_list)
         else anime_links_loop links anime_list)"

definition extract_anime_links :: "soup \<Rightarrow> anime list" where
  "extract_anime_links sp = anime_links_loop (anchors sp) []"

section \<open>Fetcher\<close>

text \<open>
  What \<open>session.get(url, timeout=15)\<close> gives: it raises a \<open>RequestException\<close>, or it
  returns a response with a status code and a body. The network is a parameter:
  \<open>net k u\<close> is the reply to a GET of \<open>u\<close> when \<open>k\<close> requests were sent before it.
\<close>

datatype reply = RequestError | Reply int string

type_synonym network = "nat \<Rightarrow> string \<Rightarrow> reply"

text \<open>
  \<open>response.raise_for_status()\<close> of the HTTP library raises \<open>HTTPError\<close>, a
  \<open>RequestException\<close>, for the client errors 400 to 499 and the server errors 500 to
  599, and returns for every other status code.
\<close>

definition raise_for_status :: "int \<Rightarrow> bool" where
  "raise_for_status status = (400 \<le> status \<and> status < 600)"

text \<open>
  The state of an \<open>AnimeScraper\<close>: its cache, and the URLs it has sent to the
  transport, in order.
\<close>

record scraper =
  cache :: "string \<rightharpoonup> string"
  sent :: "string list"

definition base_url :: string where
  "base_url = ''https://meownime.ltd''"

definition new_scraper :: scraper where
  "new_scraper = \<lparr>cache = Map.empty, sent = []\<rparr>"

definition get_page :: "network \<Rightarrow> string \<Rightarrow> bool \<Rightarrow> scraper \<Rightarrow> string option \<times> scraper" where
  "get_page net u use_cache s =
     (case (if use_cache then cache s u else None) of
        Some body \<Rightarrow> (Some body, s)
      | None \<Rightarrow>
          (let s' = s\<lparr>sent := sent s @ [u]\<rparr>
           in case net (length (sent s)) u of
                RequestError \<Rightarrow> (None, s')
              | Reply status body \<Rightarrow>
                  if raise_for_status status then (None, s')
                  else (Some body, s'\<lparr>cache := (cache s')(u \<mapsto> body)\<rparr>)))"

section \<open>Anime list\<close>

text \<open>
  \<open>scrape_anime_list\<close>; \<open>parse\<close> is \<open>BeautifulSoup(html, 'html.parser')\<close>. An empty
  page is falsy, as \<open>None\<close> is, and so is an empty \<open>letter\<close>. \<open>list.sort\<close> is stable,
  as \<^const>\<open>sort_key\<close> is.
\<close>

definition scrape_anime_list ::
  "network \<Rightarrow> (string \<Rightarrow> soup) \<Rightarrow> string option \<Rightarrow> scraper \<Rightarrow> anime list \<times> scraper" where
  "scrape_anime_list net parse letter s =
     (let u = base_url @ ''/anime-list-baru''
      in case get_page net u True s of
           (None, s') \<Rightarrow> ([], s')
         | (Some html, s') \<Rightarrow>
             if html = [] then ([], s')
             else
               (let sp = parse html;
                    anime_list = extract_anime_links sp;
                    anime_list = remove_duplicates anime_list;
                    anime_list =
                      (case letter of
                         None \<Rightarrow> anime_list
                       | Some l \<Rightarrow>
                           if l = [] then anime_list
                           else filter (\<lambda>a. startswith (lower (title a)) (lower l)) anime_list)
                in (sort_key (\<lambda>x. lower (title x)) anime_list, s')))"

section \<open>Search\<close>

fun search_loop :: "string \<Rightarrow> anime list \<Rightarrow> anime list \<Rightarrow> anime list" where
  "search_loop query_lower [] results = results"
| "search_loop query_lower (a # rest) results =
     (let title_lower = lower (title a)
      in if py_in query_lower title_lower
         then search_loop query_lower rest (results @ [a])
         else search_loop query_lower rest results)"

text \<open>The sort key of \<open>search_anime\<close>; Python compares the pairs lexicographically.\<close>

definition relevance :: "string \<Rightarrow> anime \<Rightarrow> bool \<times> nat" where
  "relevance query_lower x = (\<not> startswith (lower (title x)) query_lower, length (title x))"

text \<open>The part of \<open>search_anime\<close> that follows the fetch of \<open>all_anime\<close>.\<close>

definition search_in :: "anime list \<Rightarrow> string \<Rightarrow> anime list" where
  "search_in all_anime query =
     (let query_lower = strip (lower query)
      in if query_lower = [] then []
         else
           (let results = search_loop query_lower all_anime [];
                results = sort_key (relevance query_lower) results
            in take 25 results))"

definition search_anime ::
  "network \<Rightarrow> (string \<Rightarrow> soup) \<Rightarrow> string \<Rightarrow> scraper \<Rightarrow> anime list \<times> scraper" where
  "search_anime net parse query s =
     (case scrape_anime_list net parse None s of
        (all_anime, s') \<Rightarrow> (search_in all_anime query, s'))"

section \<open>Detail extractor\<close>

definition synopsis_selectors :: "string list" where
  "synopsis_selectors = [''.entry-content p'', ''.post-content p'', ''.content p'', ''p'']"

text \<open>
  The inner loop of \<open>extract_synopsis\<close>, over \<open>elements[:3]\<close>: a paragraph is kept
  when its text has more than 30 characters and none of the three words.
\<close>

fun paragraphs_loop :: "element list \<Rightarrow> string list \<Rightarrow> string list" where
  "paragraphs_loop [] synopsis_parts = synopsis_parts"
| "paragraphs_loop (p # ps) synopsis_parts =
     (let t = get_text p
      in if length t > 30
            \<and> \<not> list_ex (\<lambda>word. py_in word (lower t)) [''download'', ''link'', ''episode'']
         then paragraphs_loop ps (synopsis_parts @ [t])
         else paragraphs_loop ps synopsis_parts)"

text \<open>The second condition of that loop, named: the text has one of the three words.\<close>

definition disallowed :: "string \<Rightarrow> bool" where
  "disallowed t = list_ex (\<lambda>word. py_in word (lower t)) [''download'', ''link'', ''episode'']"

text \<open>The outer loop over the selectors, left at the first selector that gave a part.\<close>

fun selectors_loop :: "soup \<Rightarrow> string list \<Rightarrow> string list \<Rightarrow> string list" where
  "selectors_loop sp [] synopsis_parts = synopsis_parts"
| "selectors_loop sp (selector # rest) synopsis_parts =
     (let elements = select sp selector
      in if elements \<noteq> []
         then (let synopsis_parts = paragraphs_loop (take 3 elements) synopsis_parts
               in if synopsis_parts \<noteq> [] then synopsis_parts
                  else selectors_loop sp rest synopsis_parts)
         else selectors_loop sp rest synopsis_parts)"

definition extract_synopsis :: "soup \<Rightarrow> string" where
  "extract_synopsis sp =
     (let synopsis_parts = selectors_loop sp synopsis_selectors [];
          synopsis = join '' '' synopsis_parts
      in if length synopsis > 500 then take 500 synopsis @ ''...'' else synopsis)"

text \<open>The dictionaries \<open>{"text": ..., "url": ..., "type": ...}\<close> of the download links.\<close>

record download_link =
  link_text :: string
  link_url :: string
  link_type :: string

definition determine_link_type :: "string \<Rightarrow> string" where
  "determine_link_type u =
     (let url_lower = lower u
      in if py_in ''drive.google.com'' url_lower then ''Google Drive''
         else if py_in ''mega.nz'' url_lower then ''MEGA''
         else if py_in ''mediafire.com'' url_lower then ''MediaFire''
         else if py_in ''zippyshare.com'' url_lower then ''ZippyShare''
         else if py_in ''solidfiles.com'' url_lower then ''SolidFiles''
         else if py_in ''uptobox.com'' url_lower then ''Uptobox''
         else ''Other'')"

definition download_domains :: "string list" where
  "download_domains =
     [''drive.google.com'', ''mega.nz'', ''mediafire.com'',
      ''zippyshare.com'', ''solidfiles.com'', ''uptobox.com'']"

text \<open>The first loop of \<open>extract_download_links\<close>, over all anchors.\<close>

fun download_loop :: "element list \<Rightarrow> download_link list \<Rightarrow> download_link list" where
  "download_loop [] download_links = download_links"
| "download_loop (link # links) download_links =
     (let h = href link;
          t = get_text link
      in if list_ex (\<lambda>domain. py_in domain h) download_domains
         then download_loop links
                (download_links @
                   [\<lparr>link_text = take 100 t, link_url = h, link_type = determine_link_type h\<rparr>])
         else download_loop links download_links)"

text \<open>The second loop, with its set \<open>seen_urls\<close> and its list \<open>unique_links\<close>.\<close>

fun unique_loop ::
  "download_link list \<Rightarrow> string set \<Rightarrow> download_link list \<Rightarrow> download_link list" where
  "unique_loop [] seen_urls unique_links = unique_links"
| "unique_loop (link # links) seen_urls unique_links =
     (if link_url link \<notin> seen_urls
      then unique_loop links (insert (link_url link) seen_urls) (unique_links @ [link])
      else unique_loop links seen_urls unique_links)"

definition extract_download_links :: "soup \<Rightarrow> download_link list" where
  "extract_download_links sp =
     (let download_links = download_loop (anchors sp) [];
          unique_links = unique_loop download_links {} []
      in take 10 unique_links)"

section \<open>Sample pages, networks and records\<close>

text \<open>A page whose first synopsis selector gives five paragraphs.\<close>

definition five_paragraphs :: "element list" where
  "five_paragraphs =
     [\<lparr>href = [], strings = [''Naruto Uzumaki is a young ninja from the Hidden Leaf.'']\<rparr>,
      \<lparr>href = [], strings = [''Short text.'']\<rparr>,
      \<lparr>href = [], strings = [''He dreams of becoming the Hokage of his village.'']\<rparr>,
      \<lparr>href = [], strings = [''His rival Sasuke seeks revenge against his brother.'']\<rparr>,
      \<lparr>href = [], strings = [''The end.'']\<rparr>]"

definition five_select :: "string \<Rightarrow> element list" where
  "five_select selector =
     (if selector = ''.entry-content p'' \<or> selector = ''p'' then five_paragraphs else [])"

definition five_page :: soup where
  "five_page = \<lparr>anchors = [], select = five_select\<rparr>"

text \<open>A page with three paragraphs of 200 characters each.\<close>

definition long_select :: "string \<Rightarrow> element list" where
  "long_select selector =
     (if selector = ''p''
      then replicate 3 \<lparr>href = [], strings = [replicate 200 CHR ''a'']\<rparr> else [])"

definition long_page :: soup where
  "long_page = \<lparr>anchors = [], select = long_select\<rparr>"

text \<open>A page with download anchors, one of them twice, and one other anchor.\<close>

definition no_select :: "string \<Rightarrow> element list" where
  "no_select selector = []"

definition download_page :: soup where
  "download_page =
     \<lparr>anchors =
        [\<lparr>href = ''https://mega.nz/file/abc'', strings = ['' 720p '']\<rparr>,
         \<lparr>href = ''https://meownime.ltd/faq'', strings = [''FAQ'']\<rparr>,
         \<lparr>href = ''https://mega.nz/file/abc'', strings = [''mirror'']\<rparr>,
         \<lparr>href = ''https://drive.google.com/x'', strings = [''1080p'']\<rparr>],
      select = no_select\<rparr>"

text \<open>The list page of the three Naruto titles, and a navigation link.\<close>

definition list_page :: soup where
  "list_page =
     \<lparr>anchors =
        [\<lparr>href = ''https://meownime.ltd/naruto-shippuden-sub-indo/'',
          strings = [''Naruto Shippuden'']\<rparr>,
         \<lparr>href = ''https://meownime.ltd/genre/action-sub-indo/'', strings = [''Action'']\<rparr>,
         \<lparr>href = ''https://meownime.ltd/boruto-sub-indo/'',
          strings = [''Boruto: Naruto Next'']\<rparr>,
         \<lparr>href = ''https://meownime.ltd/naruto-sub-indo/'', strings = ['' Naruto '']\<rparr>],
      select = no_select\<rparr>"

definition list_parse :: "string \<Rightarrow> soup" where
  "list_parse html = list_page"

definition naruto_list :: "anime list" where
  "naruto_list =
     [\<lparr>title = ''Naruto Shippuden'', url = ''https://meownime.ltd/naruto-shippuden-sub-indo/''\<rparr>,
      \<lparr>title = ''Boruto: Naruto Next'', url = ''https://meownime.ltd/boruto-sub-indo/''\<rparr>,
      \<lparr>title = ''Naruto'', url = ''https://meownime.ltd/naruto-sub-indo/''\<rparr>]"

text \<open>Networks: every request fails; every reply is a 200, a 300 or a 404.\<close>

definition net_down :: network where
  "net_down k u = RequestError"

definition net_ok :: network where
  "net_ok k u = Reply 200 ''<html>page</html>''"

definition net_choices :: network where
  "net_choices k u = Reply 300 ''<html>choices</html>''"

definition net_not_found :: network where
  "net_not_found k u = Reply 404 ''<html>not found</html>''"

definition film_noir :: anime where
  "film_noir = \<lparr>title = ''Film Noir'', url = ''https://meownime.ltd/noir-sub-indo/''\<rparr>"

definition movie_2024 :: anime where
  "movie_2024 =
     \<lparr>title = ''Naruto Movie 2024'', url = ''https://meownime.ltd/naruto-2024-sub-indo/''\<rparr>"

definition season_two :: anime where
  "season_two =
     \<lparr>title = ''One Punch Man Season 2'', url = ''https://meownime.ltd/opm-sub-indo/''\<rparr>"

definition bleach :: anime where
  "bleach = \<lparr>title = ''Bleach'', url = ''https://meownime.ltd/bleach-sub-indo/''\<rparr>"

text \<open>A list with a repeated key and a key of two characters.\<close>

definition dup_list :: "anime list" where
  "dup_list =
     [\<lparr>title = ''Naruto Shippuden'', url = ''https://meownime.ltd/a-sub-indo/''\<rparr>,
      \<lparr>title = ''Na'', url = ''https://meownime.ltd/b-sub-indo/''\<rparr>,
      \<lparr>title = '' naruto shippuden '', url = ''https://meownime.ltd/c-sub-indo/''\<rparr>,
      \<lparr>title = ''Bleach'', url = ''https://meownime.ltd/bleach-sub-indo/''\<rparr>]"

section \<open>Facts about the string operations\<close>

lemma dropWhile_hd: "xs = [] \<or> \<not> P (hd xs) \<Longrightarrow> dropWhile P xs = xs"
  by (cases xs) auto

lemma last_dropWhile_keep: "dropWhile P xs \<noteq> [] \<Longrightarrow> last (dropWhile P xs) = last xs"
  by (induction xs) (auto split: if_splits)

lemma strip_fixed:
  assumes "s = [] \<or> (\<not> is_space (hd s) \<and> \<not> is_space (last s))"
  shows "strip s = s"
proof (cases "s = []")
  case True
  then show ?thesis by (simp add: strip_def)
next
  case False
  with assms have a: "dropWhile is_space s = s" by (intro dropWhile_hd) simp
  from False assms have "dropWhile is_space (rev s) = rev s"
    by (intro dropWhile_hd) (simp add: hd_rev)
  with a show ?thesis by (simp add: strip_def)
qed

lemma strip_ends:
  assumes "strip s \<noteq> []"
  shows "\<not> is_space (hd (strip s)) \<and> \<not> is_space (last (strip s))"
proof -
  define a where "a = dropWhile is_space s"
  define b where "b = dropWhile is_space (rev a)"
  have s: "strip s = rev b" by (simp add: strip_def a_def b_def)
  with assms have b: "b \<noteq> []" by simp
  then have a: "a \<noteq> []" by (auto simp: b_def)
  have "\<not> is_space (hd b)" using b unfolding b_def by (rule hd_dropWhile)
  moreover have "last b = last (rev a)" using b unfolding b_def by (rule last_dropWhile_keep)
  moreover have "\<not> is_space (hd a)" using a unfolding a_def by (rule hd_dropWhile)
  ultimately show ?thesis using a b by (simp add: s hd_rev last_rev)
qed

lemma strip_strip: "strip (strip s) = strip s"
  by (rule strip_fixed) (use strip_ends in blast)

lemma remove_all_absent: "\<not> py_in old s \<Longrightarrow> remove_all old s = s"
  by (induction s) auto

lemma remove_patterns_absent:
  "\<forall>p\<in>set ps. \<not> py_in p s \<and> \<not> py_in (lower p) s \<Longrightarrow> remove_patterns ps s = s"
  by (induction ps) (auto simp: remove_all_absent)

lemma split_from_words:
  "\<forall>c\<in>set w. \<not> is_space c \<Longrightarrow> \<forall>x\<in>set (split_from w s). is_word x"
proof (induction s arbitrary: w)
  case Nil
  then show ?case by (simp add: is_word_def)
next
  case (Cons a s)
  have e: "\<forall>x\<in>set (split_from [] s). is_word x" by (rule Cons.IH) simp
  show ?case
  proof (cases "is_space a")
    case True
    then show ?thesis using e Cons.prems by (auto simp: is_word_def)
  next
    case False
    then have "\<forall>x\<in>set (split_from (w @ [a]) s). is_word x"
      using Cons.prems by (intro Cons.IH) auto
    then show ?thesis using False by simp
  qed
qed

lemma split_words: "\<forall>x\<in>set (split s). is_word x"
  unfolding split_def by (rule split_from_words) simp

lemma split_from_append:
  "\<forall>c\<in>set v. \<not> is_space c \<Longrightarrow> split_from w (v @ s) = split_from (w @ v) s"
  by (induction v arbitrary: w) auto

lemma split_join:
  "\<forall>x\<in>set ws. is_word x \<Longrightarrow> split_from [] (join '' '' ws) = ws"
proof (induction "'' ''" ws rule: join.induct)
  case 1
  then show ?case by simp
next
  case (2 x)
  then have "split_from [] (x @ []) = split_from ([] @ x) []"
    by (intro split_from_append) (simp add: is_word_def)
  with 2 show ?case by (simp add: is_word_def)
next
  case (3 x y ys)
  then have w: "\<forall>c\<in>set x. \<not> is_space c" "x \<noteq> []" by (simp_all add: is_word_def)
  have "split_from [] (x @ '' '' @ join '' '' (y # ys)) =
        split_from ([] @ x) ('' '' @ join '' '' (y # ys))"
    using w(1) by (rule split_from_append)
  also have "\<dots> = x # split_from [] (join '' '' (y # ys))"
    using w(2) by (simp add: is_space_def)
  finally show ?case using 3 by simp
qed

lemma join_ends:
  "ws \<noteq> [] \<Longrightarrow> \<forall>x\<in>set ws. is_word x \<Longrightarrow>
     join '' '' ws \<noteq> [] \<and> hd (join '' '' ws) = hd (hd ws)
     \<and> last (join '' '' ws) = last (last ws)"
  by (induction "'' ''" ws rule: join.induct) (auto simp: is_word_def)

lemma strip_join:
  assumes "\<forall>x\<in>set ws. is_word x"
  shows "strip (join '' '' ws) = join '' '' ws"
proof (cases "ws = []")
  case True
  then show ?thesis by (simp add: strip_def)
next
  case False
  then have "hd ws \<in> set ws" "last ws \<in> set ws" by simp_all
  with assms have "is_word (hd ws)" "is_word (last ws)" by blast+
  then have "\<not> is_space (hd (hd ws))" "\<not> is_space (last (last ws))"
    by (simp_all add: is_word_def)
  with join_ends [OF False assms] show ?thesis by (intro strip_fixed) simp
qed

lemma normalise_fixed:
  "join '' '' (split (join '' '' (split s))) = join '' '' (split s)"
  using split_join [OF split_words [of s]] by (simp add: split_def)

lemma strip_normalised: "strip (join '' '' (split s)) = join '' '' (split s)"
  by (rule strip_join) (rule split_words)

section \<open>Title cleaner: a second cleaning\<close>

text \<open>
  C7, as stated: \<open>clean_title (clean_title t) = clean_title t\<close> for every title. It
  fails for the title \<open>Sub  Indo Naruto\<close>, written with two spaces: the first
  cleaning finds no pattern and only joins the words with single spaces, which
  writes the pattern \<open>Sub Indo\<close>; the second cleaning removes it.
\<close>

theorem clean_title_not_idempotent:
  "clean_title ''Sub  Indo Naruto'' = ''Sub Indo Naruto'' \<and>
   clean_title (clean_title ''Sub  Indo Naruto'') = ''Naruto'' \<and>
   clean_title (clean_title ''Sub  Indo Naruto'') \<noteq> clean_title ''Sub  Indo Naruto''"
  by code_simp

text \<open>
  C7, amended: when the cleaned title contains none of the boilerplate patterns,
  neither as written nor in lower case, a second cleaning leaves it unchanged.
\<close>

theorem clean_title_idempotent_on_clean:
  assumes "\<forall>p\<in>set unwanted_patterns.
             \<not> py_in p (clean_title t) \<and> \<not> py_in (lower p) (clean_title t)"
  shows "clean_title (clean_title t) = clean_title t"
proof -
  define n where "n = join '' '' (split (remove_patterns unwanted_patterns (strip t)))"
  have c: "clean_title t = (if length n > 2 then n else strip t)"
    by (simp add: clean_title_def n_def Let_def)
  have r: "remove_patterns unwanted_patterns (clean_title t) = clean_title t"
    using assms by (rule remove_patterns_absent)
  show ?thesis
  proof (cases "length n > 2")
    case True
    then have e: "clean_title t = n" by (simp add: c)
    have "strip n = n" unfolding n_def by (rule strip_normalised)
    moreover have "remove_patterns unwanted_patterns n = n" using r e by simp
    moreover have "join '' '' (split n) = n" unfolding n_def by (rule normalise_fixed)
    ultimately have "clean_title n = n" using True by (simp add: clean_title_def Let_def)
    then show ?thesis by (simp add: e)
  next
    case False
    then have e: "clean_title t = strip t" by (simp add: c)
    then have u: "remove_patterns unwanted_patterns (strip t) = strip t" using r by simp
    then have "n = join '' '' (split (strip t))" by (simp add: n_def)
    with False have "\<not> length (join '' '' (split (strip t))) > 2" by simp
    then have "clean_title (strip t) = strip t"
      using u by (simp add: clean_title_def Let_def strip_strip)
    then show ?thesis by (simp add: e)
  qed
qed

theorem clean_title_idempotent_on_clean_witness:
  "clean_title ''  Naruto   Shippuden Sub Indo Batch '' = ''Naruto Shippuden''
   \<and> list_all (\<lambda>p. \<not> py_in p ''Naruto Shippuden'' \<and> \<not> py_in (lower p) ''Naruto Shippuden'')
         unwanted_patterns
   \<and> clean_title (clean_title ''  Naruto   Shippuden Sub Indo Batch '') = ''Naruto Shippuden''"
proof -
  have v: "clean_title ''  Naruto   Shippuden Sub Indo Batch '' = ''Naruto Shippuden''"
    by code_simp
  have a: "list_all (\<lambda>p. \<not> py_in p ''Naruto Shippuden'' \<and> \<not> py_in (lower p) ''Naruto Shippuden'')
         unwanted_patterns"
    by code_simp
  then have h: "\<forall>p\<in>set unwanted_patterns.
      \<not> py_in p (clean_title ''  Naruto   Shippuden Sub Indo Batch '') \<and>
      \<not> py_in (lower p) (clean_title ''  Naruto   Shippuden Sub Indo Batch '')"
    unfolding v by (simp only: list_all_iff)
  from clean_title_idempotent_on_clean [OF h] a v show ?thesis by simp
qed

section \<open>Deduplicator: distinct keys, first occurrence kept\<close>

lemma dedup_loop_acc: "dedup_loop xs seen acc = acc @ dedup_loop xs seen []"
proof (induction xs arbitrary: seen acc)
  case Nil
  then show ?case by simp
next
  case (Cons a xs)
  show ?case
    using Cons.IH [of "insert (title_key a) seen" "acc @ [a]"]
      Cons.IH [of "insert (title_key a) seen" "[a]"] Cons.IH [of seen acc]
    by (simp add: Let_def)
qed

lemma dedup_loop_Cons:
  "dedup_loop (a # xs) seen [] =
     (if title_key a \<notin> seen \<and> length (title_key a) > 2
      then a # dedup_loop xs (insert (title_key a) seen) []
      else dedup_loop xs seen [])"
  using dedup_loop_acc [of xs "insert (title_key a) seen" "[a]"] by (simp add: Let_def)

lemma dedup_loop_keys:
  "\<forall>a\<in>set (dedup_loop xs seen []). title_key a \<notin> seen \<and> length (title_key a) > 2 \<and> a \<in> set xs"
proof (induction xs arbitrary: seen)
  case Nil
  then show ?case by simp
next
  case (Cons a xs)
  show ?case
    using Cons.IH [of "insert (title_key a) seen"] Cons.IH [of seen]
    by (auto simp: dedup_loop_Cons simp del: dedup_loop.simps)
qed

lemma dedup_loop_distinct: "distinct (map title_key (dedup_loop xs seen []))"
proof (induction xs arbitrary: seen)
  case Nil
  then show ?case by simp
next
  case (Cons a xs)
  show ?case
    using Cons.IH [of "insert (title_key a) seen"] Cons.IH [of seen]
      dedup_loop_keys [of xs "insert (title_key a) seen"]
    by (auto simp: dedup_loop_Cons simp del: dedup_loop.simps)
qed

lemma dedup_loop_find:
  "find (\<lambda>a. title_key a = k) (dedup_loop xs seen []) =
     (if k \<in> seen \<or> length k \<le> 2 then None else find (\<lambda>a. title_key a = k) xs)"
proof (induction xs arbitrary: seen)
  case Nil
  then show ?case by simp
next
  case (Cons a xs)
  show ?case
    using Cons.IH [of "insert (title_key a) seen"] Cons.IH [of seen]
    by (auto simp: dedup_loop_Cons simp del: dedup_loop.simps)
qed

lemma dedup_loop_subseq: "subseq (dedup_loop xs seen []) xs"
proof (induction xs arbitrary: seen)
  case Nil
  then show ?case by simp
next
  case (Cons a xs)
  show ?case
    using Cons.IH [of "insert (title_key a) seen"] Cons.IH [of seen]
    by (auto simp: dedup_loop_Cons simp del: dedup_loop.simps)
qed

text \<open>
  C6: in the list that \<open>remove_duplicates\<close> returns no two records have the same
  key; every key kept has more than two characters, so a record with a shorter key
  is dropped; for every key the record kept is the first of the input with that
  key; and the records keep the order of the input.
\<close>

theorem remove_duplicates_keys:
  "distinct (map title_key (remove_duplicates xs))
   \<and> (\<forall>a\<in>set (remove_duplicates xs). length (title_key a) > 2)
   \<and> (\<forall>a\<in>set xs. length (title_key a) \<le> 2 \<longrightarrow> a \<notin> set (remove_duplicates xs))
   \<and> (\<forall>k. length k > 2 \<longrightarrow>
         find (\<lambda>a. title_key a = k) (remove_duplicates xs) = find (\<lambda>a. title_key a = k) xs)
   \<and> subseq (remove_duplicates xs) xs"
  using dedup_loop_keys [of xs "{}"]
  by (auto simp: remove_duplicates_def dedup_loop_distinct dedup_loop_find dedup_loop_subseq)

theorem remove_duplicates_keys_witness:
  "remove_duplicates dup_list = [dup_list ! 0, dup_list ! 3]
   \<and> length (title_key (dup_list ! 1)) \<le> 2
   \<and> dup_list ! 1 \<in> set dup_list
   \<and> dup_list ! 1 \<notin> set (remove_duplicates dup_list)
   \<and> title_key (dup_list ! 2) = title_key (dup_list ! 0)
   \<and> find (\<lambda>a. title_key a = ''naruto shippuden'') (remove_duplicates dup_list) = Some (dup_list ! 0)"
proof -
  have v: "remove_duplicates dup_list = [dup_list ! 0, dup_list ! 3]" by code_simp
  have k: "length (title_key (dup_list ! 1)) \<le> 2" by code_simp
  have m: "dup_list ! 1 \<in> set dup_list" by code_simp
  have e: "title_key (dup_list ! 2) = title_key (dup_list ! 0)" by code_simp
  have f: "find (\<lambda>a. title_key a = ''naruto shippuden'') dup_list = Some (dup_list ! 0)"
    by code_simp
  have l: "length ''naruto shippuden'' > 2" by simp
  from remove_duplicates_keys [of dup_list] k m have "dup_list ! 1 \<notin> set (remove_duplicates dup_list)"
    by blast
  moreover from remove_duplicates_keys [of dup_list] l
  have "find (\<lambda>a. title_key a = ''naruto shippuden'') (remove_duplicates dup_list) =
        find (\<lambda>a. title_key a = ''naruto shippuden'') dup_list" by blast
  ultimately show ?thesis using v k m e f by simp
qed


section \<open>Categorizer: one bucket for every record\<close>

lemma categorize_loop_step:
  "categorize_loop (a # rest) d =
     (if movie_rule a then categorize_loop rest (d\<lparr>movies := movies d @ [a]\<rparr>)
      else if sequel_rule a \<or> recency_rule a
      then categorize_loop rest (d\<lparr>ongoing := ongoing d @ [a]\<rparr>)
      else categorize_loop rest (d\<lparr>completed := completed d @ [a]\<rparr>))"
  unfolding categorize_loop.simps Let_def movie_rule_def sequel_rule_def recency_rule_def
  by simp

lemma categorize_loop_filter:
  "categorize_loop xs d =
     \<lparr>ongoing = ongoing d @ filter (\<lambda>a. \<not> movie_rule a \<and> (sequel_rule a \<or> recency_rule a)) xs,
      completed =
        completed d @ filter (\<lambda>a. \<not> movie_rule a \<and> \<not> (sequel_rule a \<or> recency_rule a)) xs,
      movies = movies d @ filter movie_rule xs\<rparr>"
proof (induction xs arbitrary: d)
  case Nil
  then show ?case by simp
next
  case (Cons a xs)
  show ?case unfolding categorize_loop_step Cons.IH by simp
qed

lemma three_way_mset:
  "mset (filter (\<lambda>a. \<not> P a \<and> Q a) xs) + mset (filter (\<lambda>a. \<not> P a \<and> \<not> Q a) xs)
     + mset (filter P xs) = mset xs"
  by (induction xs) auto

text \<open>
  C3, amended: every input record is put in exactly one of the three buckets, by
  the first rule that matches. The movie rule is tried first; it holds when the
  title contains \<open>movie\<close> or the url contains \<open>movie\<close> or \<open>film\<close>. The word
  \<open>film\<close> in the title is not part of it.
\<close>

theorem categorize_anime_buckets:
  "movies (categorize_anime xs) = filter movie_rule xs
   \<and> ongoing (categorize_anime xs) =
       filter (\<lambda>a. \<not> movie_rule a \<and> (sequel_rule a \<or> recency_rule a)) xs
   \<and> completed (categorize_anime xs) =
       filter (\<lambda>a. \<not> movie_rule a \<and> \<not> (sequel_rule a \<or> recency_rule a)) xs
   \<and> mset (ongoing (categorize_anime xs)) + mset (completed (categorize_anime xs))
       + mset (movies (categorize_anime xs)) = mset xs
   \<and> (\<forall>a\<in>set xs.
        if movie_rule a
        then a \<in> set (movies (categorize_anime xs)) \<and> a \<notin> set (ongoing (categorize_anime xs))
             \<and> a \<notin> set (completed (categorize_anime xs))
        else if sequel_rule a \<or> recency_rule a
        then a \<in> set (ongoing (categorize_anime xs)) \<and> a \<notin> set (movies (categorize_anime xs))
             \<and> a \<notin> set (completed (categorize_anime xs))
        else a \<in> set (completed (categorize_anime xs))
             \<and> a \<notin> set (movies (categorize_anime xs))
             \<and> a \<notin> set (ongoing (categorize_anime xs)))"
proof -
  have m: "movies (categorize_anime xs) = filter movie_rule xs"
    and o: "ongoing (categorize_anime xs) =
       filter (\<lambda>a. \<not> movie_rule a \<and> (sequel_rule a \<or> recency_rule a)) xs"
    and c: "completed (categorize_anime xs) =
       filter (\<lambda>a. \<not> movie_rule a \<and> \<not> (sequel_rule a \<or> recency_rule a)) xs"
    by (simp_all add: categorize_anime_def categorize_loop_filter)
  have s: "mset (ongoing (categorize_anime xs)) + mset (completed (categorize_anime xs))
       + mset (movies (categorize_anime xs)) = mset xs"
    unfolding m o c by (rule three_way_mset)
  have e: "\<forall>a\<in>set xs.
        if movie_rule a
        then a \<in> set (movies (categorize_anime xs)) \<and> a \<notin> set (ongoing (categorize_anime xs))
             \<and> a \<notin> set (completed (categorize_anime xs))
        else if sequel_rule a \<or> recency_rule a
        then a \<in> set (ongoing (categorize_anime xs)) \<and> a \<notin> set (movies (categorize_anime xs))
             \<and> a \<notin> set (completed (categorize_anime xs))
        else a \<in> set (completed (categorize_anime xs))
             \<and> a \<notin> set (movies (categorize_anime xs))
             \<and> a \<notin> set (ongoing (categorize_anime xs))"
    unfolding m o c by auto
  from m o c s e show ?thesis by blast
qed

theorem categorize_anime_buckets_witness:
  "movie_rule movie_2024 \<and> recency_rule movie_2024
   \<and> \<not> movie_rule season_two \<and> sequel_rule season_two
   \<and> \<not> movie_rule bleach \<and> \<not> sequel_rule bleach \<and> \<not> recency_rule bleach
   \<and> categorize_anime [bleach, movie_2024, season_two] =
       \<lparr>ongoing = [season_two], completed = [bleach], movies = [movie_2024]\<rparr>"
proof -
  have r: "movie_rule movie_2024" "recency_rule movie_2024"
    "\<not> movie_rule season_two" "sequel_rule season_two"
    "\<not> movie_rule bleach" "\<not> sequel_rule bleach" "\<not> recency_rule bleach"
    by code_simp+
  have n: "bleach \<noteq> movie_2024" "bleach \<noteq> season_two" "movie_2024 \<noteq> season_two"
    by (simp_all add: bleach_def movie_2024_def season_two_def)
  have "movies (categorize_anime [bleach, movie_2024, season_two]) = [movie_2024]"
    "ongoing (categorize_anime [bleach, movie_2024, season_two]) = [season_two]"
    "completed (categorize_anime [bleach, movie_2024, season_two]) = [bleach]"
    using categorize_anime_buckets [of "[bleach, movie_2024, season_two]"] r by simp_all
  then have "categorize_anime [bleach, movie_2024, season_two] =
       \<lparr>ongoing = [season_two], completed = [bleach], movies = [movie_2024]\<rparr>"
    by (cases "categorize_anime [bleach, movie_2024, season_two]") simp
  with r show ?thesis by simp
qed

text \<open>
  C3, as stated, sends every record whose title contains \<open>film\<close> to the movies. The
  record \<open>film_noir\<close> has such a title, and a url with neither word; it is put in
  \<open>completed\<close>.
\<close>

theorem film_title_not_in_movies:
  "py_in ''film'' (lower (title film_noir))
   \<and> movies (categorize_anime [film_noir]) = []
   \<and> completed (categorize_anime [film_noir]) = [film_noir]"
  by code_simp


section \<open>Download links\<close>

lemma download_loop_filter:
  "download_loop links acc =
     acc @ map (\<lambda>e. \<lparr>link_text = take 100 (get_text e), link_url = href e,
                      link_type = determine_link_type (href e)\<rparr>)
             (filter (\<lambda>e. list_ex (\<lambda>domain. py_in domain (href e)) download_domains) links)"
proof (induction links arbitrary: acc)
  case Nil
  then show ?case by simp
next
  case (Cons e links)
  show ?case unfolding download_loop.simps Let_def Cons.IH by simp
qed

lemma unique_loop_acc: "unique_loop xs seen acc = acc @ unique_loop xs seen []"
proof (induction xs arbitrary: seen acc)
  case Nil
  then show ?case by simp
next
  case (Cons a xs)
  show ?case
    using Cons.IH [of "insert (link_url a) seen" "acc @ [a]"]
      Cons.IH [of "insert (link_url a) seen" "[a]"] Cons.IH [of seen acc]
    by simp
qed

lemma unique_loop_Cons:
  "unique_loop (a # xs) seen [] =
     (if link_url a \<notin> seen then a # unique_loop xs (insert (link_url a) seen) []
      else unique_loop xs seen [])"
  using unique_loop_acc [of xs "insert (link_url a) seen" "[a]"] by simp

lemma unique_loop_members:
  "\<forall>a\<in>set (unique_loop xs seen []). link_url a \<notin> seen \<and> a \<in> set xs"
proof (induction xs arbitrary: seen)
  case Nil
  then show ?case by simp
next
  case (Cons a xs)
  show ?case
    using Cons.IH [of "insert (link_url a) seen"] Cons.IH [of seen]
    by (auto simp: unique_loop_Cons simp del: unique_loop.simps)
qed

lemma unique_loop_distinct: "distinct (map link_url (unique_loop xs seen []))"
proof (induction xs arbitrary: seen)
  case Nil
  then show ?case by simp
next
  case (Cons a xs)
  show ?case
    using Cons.IH [of "insert (link_url a) seen"] Cons.IH [of seen]
      unique_loop_members [of xs "insert (link_url a) seen"]
    by (auto simp: unique_loop_Cons simp del: unique_loop.simps)
qed

lemma unique_loop_urls:
  "link_url ` set (unique_loop xs seen []) = link_url ` set xs - seen"
proof (induction xs arbitrary: seen)
  case Nil
  then show ?case by simp
next
  case (Cons a xs)
  show ?case
    using Cons.IH [of "insert (link_url a) seen"] Cons.IH [of seen]
    by (auto simp: unique_loop_Cons simp del: unique_loop.simps)
qed

text \<open>
  C8: every link that \<open>extract_download_links\<close> returns is built from an anchor of
  the page whose href contains an allowlisted domain; no two links returned have
  the same url; there are at most ten; when fewer than ten are returned, every
  allowlisted href of the page is among them; and a page with no allowlisted
  anchor gives the empty list. The function has no failing branch.
\<close>

theorem extract_download_links_allowlisted:
  "(\<forall>l\<in>set (extract_download_links sp).
      list_ex (\<lambda>domain. py_in domain (link_url l)) download_domains
      \<and> (\<exists>e\<in>set (anchors sp). l = \<lparr>link_text = take 100 (get_text e), link_url = href e,
                                      link_type = determine_link_type (href e)\<rparr>))
   \<and> distinct (map link_url (extract_download_links sp))
   \<and> length (extract_download_links sp) \<le> 10
   \<and> (length (extract_download_links sp) < 10 \<longrightarrow>
        (\<forall>e\<in>set (anchors sp). list_ex (\<lambda>domain. py_in domain (href e)) download_domains \<longrightarrow>
           href e \<in> link_url ` set (extract_download_links sp)))
   \<and> ((\<forall>e\<in>set (anchors sp). \<not> list_ex (\<lambda>domain. py_in domain (href e)) download_domains) \<longrightarrow>
        extract_download_links sp = [])"
proof -
  define mk :: "element \<Rightarrow> download_link" where "mk = (\<lambda>e. \<lparr>link_text = take 100 (get_text e), link_url = href e,
                      link_type = determine_link_type (href e)\<rparr>)"
  define allowed where "allowed = (\<lambda>h. list_ex (\<lambda>domain. py_in domain h) download_domains)"
  define ok :: "element \<Rightarrow> bool" where "ok = (\<lambda>e. allowed (href e))"
  define dl where "dl = map mk (filter ok (anchors sp))"
  define un where "un = unique_loop dl {} []"
  have dl: "download_loop (anchors sp) [] = dl"
    by (simp add: download_loop_filter dl_def mk_def ok_def allowed_def)
  have r: "extract_download_links sp = take 10 un"
    by (simp add: extract_download_links_def dl un_def)
  have u: "link_url (mk e) = href e" for e by (simp add: mk_def)
  have sub: "set (take 10 un) \<subseteq> set un" by (rule set_take_subset)
  have mem: "\<forall>l\<in>set un. l \<in> set dl" unfolding un_def using unique_loop_members [of dl "{}"] by blast
  have a: "\<forall>l\<in>set (take 10 un). allowed (link_url l) \<and> (\<exists>e\<in>set (anchors sp). l = mk e)"
  proof
    fix l assume "l \<in> set (take 10 un)"
    with sub mem have "l \<in> set dl" by blast
    then obtain e where "e \<in> set (anchors sp)" "ok e" "l = mk e" by (auto simp: dl_def)
    then show "allowed (link_url l) \<and> (\<exists>e\<in>set (anchors sp). l = mk e)"
      by (auto simp: ok_def u)
  qed
  have b: "distinct (map link_url (take 10 un))"
    unfolding un_def take_map [symmetric] by (rule distinct_take) (rule unique_loop_distinct)
  have c: "length (take 10 un) \<le> 10" by simp
  have d: "length (take 10 un) < 10 \<longrightarrow>
        (\<forall>e\<in>set (anchors sp). ok e \<longrightarrow> href e \<in> link_url ` set (take 10 un))"
  proof (intro impI ballI)
    fix e assume l: "length (take 10 un) < 10" and e: "e \<in> set (anchors sp)" "ok e"
    from l have "take 10 un = un" by simp
    moreover have "link_url ` set un = link_url ` set dl"
      unfolding un_def using unique_loop_urls [of dl "{}"] by simp
    moreover from e have "href e \<in> link_url ` set dl" by (force simp: dl_def u)
    ultimately show "href e \<in> link_url ` set (take 10 un)" by simp
  qed
  have e: "(\<forall>e\<in>set (anchors sp). \<not> ok e) \<longrightarrow> take 10 un = []"
  proof
    assume "\<forall>e\<in>set (anchors sp). \<not> ok e"
    then have "dl = []" by (simp add: dl_def)
    then show "take 10 un = []" by (simp add: un_def)
  qed
  from a b c d e show ?thesis unfolding r ok_def allowed_def mk_def by simp
qed

theorem extract_download_links_allowlisted_witness:
  "map link_url (extract_download_links download_page) =
     [''https://mega.nz/file/abc'', ''https://drive.google.com/x'']
   \<and> map link_text (extract_download_links download_page) = [''720p'', ''1080p'']
   \<and> map link_type (extract_download_links download_page) = [''MEGA'', ''Google Drive'']
   \<and> length (extract_download_links download_page) < 10
   \<and> list_ex (\<lambda>domain. py_in domain ''https://mega.nz/file/abc'') download_domains
   \<and> ''https://mega.nz/file/abc'' \<in> link_url ` set (extract_download_links download_page)
   \<and> anchors five_page = []
   \<and> extract_download_links five_page = []"
proof -
  have v: "map link_url (extract_download_links download_page) =
     [''https://mega.nz/file/abc'', ''https://drive.google.com/x'']"
     "map link_text (extract_download_links download_page) = [''720p'', ''1080p'']"
     "map link_type (extract_download_links download_page) = [''MEGA'', ''Google Drive'']"
    by code_simp+
  have l: "length (extract_download_links download_page) < 10"
    using v(1) [THEN arg_cong, of length] by simp
  have m: "list_ex (\<lambda>domain. py_in domain ''https://mega.nz/file/abc'') download_domains"
    by code_simp
  have e: "\<lparr>href = ''https://mega.nz/file/abc'', strings = ['' 720p '']\<rparr>
             \<in> set (anchors download_page)"
    by (simp add: download_page_def)
  have n: "anchors five_page = []" by (simp add: five_page_def)
  then have n': "\<forall>e\<in>set (anchors five_page).
      \<not> list_ex (\<lambda>domain. py_in domain (href e)) download_domains" by simp
  from extract_download_links_allowlisted [of download_page] l e m
  have "href \<lparr>href = ''https://mega.nz/file/abc'', strings = ['' 720p '']\<rparr>
          \<in> link_url ` set (extract_download_links download_page)"
    by (metis element.select_convs(1))
  then have i: "''https://mega.nz/file/abc''
          \<in> link_url ` set (extract_download_links download_page)" by simp
  from extract_download_links_allowlisted [of five_page] n'
  have "extract_download_links five_page = []" by blast
  with i show ?thesis using v l m n by simp
qed

section \<open>Synopsis\<close>

lemma paragraphs_loop_filter:
  "paragraphs_loop ps parts =
     parts @ filter (\<lambda>t. length t > 30
                \<and> \<not> list_ex (\<lambda>word. py_in word (lower t)) [''download'', ''link'', ''episode''])
              (map get_text ps)"
proof (induction ps arbitrary: parts)
  case Nil
  then show ?case by simp
next
  case (Cons p ps)
  show ?case unfolding paragraphs_loop.simps Let_def Cons.IH by simp
qed

lemma selectors_loop_skip:
  "\<forall>s\<in>set pre. select sp s = [] \<Longrightarrow>
     selectors_loop sp (pre @ rest) parts = selectors_loop sp rest parts"
  by (induction pre) simp_all

lemma length_ellipsis:
  "length (if length s > 500 then take 500 s @ ''...'' else s) \<le> 503"
  by simp

text \<open>
  C1, amended: when the first synopsis selector that returns elements gives five
  paragraphs, of which the first, the third and the fourth have a text of more
  than 30 characters, the second and the fifth have not, and none has a
  disallowed word, \<open>extract_synopsis\<close> joins the first and the third paragraph
  with one space (and cuts the result after 500 characters, with three dots).
  Only the first three paragraphs are read, as the loop over \<open>elements[:3]\<close> says;
  the fourth is never joined.
\<close>

theorem extract_synopsis_first_three:
  assumes sel: "synopsis_selectors = pre @ selector # rest"
    and pre: "\<forall>s\<in>set pre. select sp s = []"
    and five: "select sp selector = [p1, p2, p3, p4, p5]"
    and long: "length (get_text p1) > 30" "length (get_text p3) > 30" "length (get_text p4) > 30"
    and short: "length (get_text p2) \<le> 30" "length (get_text p5) \<le> 30"
    and words: "\<forall>p\<in>set [p1, p2, p3, p4, p5]. \<not> disallowed (get_text p)"
  shows "extract_synopsis sp =
           (let synopsis = get_text p1 @ '' '' @ get_text p3
            in if length synopsis > 500 then take 500 synopsis @ ''...'' else synopsis)"
proof -
  have p: "paragraphs_loop (take 3 [p1, p2, p3, p4, p5]) [] = [get_text p1, get_text p3]"
    using long short words by (simp add: paragraphs_loop_filter disallowed_def)
  have "selectors_loop sp synopsis_selectors [] = selectors_loop sp (selector # rest) []"
    unfolding sel using pre by (rule selectors_loop_skip)
  also have "\<dots> = [get_text p1, get_text p3]"
    using five p by (simp add: Let_def)
  finally show ?thesis by (simp add: extract_synopsis_def Let_def)
qed

theorem extract_synopsis_first_three_witness:
  "synopsis_selectors = [] @ ''.entry-content p'' # [''.post-content p'', ''.content p'', ''p'']
   \<and> select five_page ''.entry-content p'' = five_paragraphs
   \<and> map (\<lambda>p. length (get_text p)) five_paragraphs = [53, 11, 48, 51, 8]
   \<and> list_all (\<lambda>p. \<not> disallowed (get_text p)) five_paragraphs
   \<and> extract_synopsis five_page =
       ''Naruto Uzumaki is a young ninja from the Hidden Leaf. He dreams of becoming the Hokage of his village.''"
proof -
  define p1 where "p1 = five_paragraphs ! 0"
  define p2 where "p2 = five_paragraphs ! 1"
  define p3 where "p3 = five_paragraphs ! 2"
  define p4 where "p4 = five_paragraphs ! 3"
  define p5 where "p5 = five_paragraphs ! 4"
  have f: "five_paragraphs = [p1, p2, p3, p4, p5]"
    by (simp add: five_paragraphs_def p1_def p2_def p3_def p4_def p5_def)
  have sel: "synopsis_selectors = [] @ ''.entry-content p'' # [''.post-content p'', ''.content p'', ''p'']"
    by (simp add: synopsis_selectors_def)
  have five: "select five_page ''.entry-content p'' = [p1, p2, p3, p4, p5]"
    by (simp add: five_page_def five_select_def f)
  have len: "map (\<lambda>p. length (get_text p)) five_paragraphs = [53, 11, 48, 51, 8]"
    by code_simp
  then have l: "length (get_text p1) = 53" "length (get_text p2) = 11" "length (get_text p3) = 48"
    "length (get_text p4) = 51" "length (get_text p5) = 8"
    by (simp_all add: f)
  have w: "list_all (\<lambda>p. \<not> disallowed (get_text p)) five_paragraphs"
    by code_simp
  then have words: "\<forall>p\<in>set [p1, p2, p3, p4, p5]. \<not> disallowed (get_text p)"
    by (simp only: f list_all_iff)
  have t: "get_text p1 = ''Naruto Uzumaki is a young ninja from the Hidden Leaf.''"
    "get_text p3 = ''He dreams of becoming the Hokage of his village.''"
    unfolding p1_def p3_def by code_simp+
  have "extract_synopsis five_page =
           (let synopsis = get_text p1 @ '' '' @ get_text p3
            in if length synopsis > 500 then take 500 synopsis @ ''...'' else synopsis)"
    by (rule extract_synopsis_first_three [OF sel _ five _ _ _ _ _ words]) (simp_all add: l)
  then have "extract_synopsis five_page =
       ''Naruto Uzumaki is a young ninja from the Hidden Leaf. He dreams of becoming the Hokage of his village.''"
    by (simp add: t Let_def)
  with sel five f len w show ?thesis by simp
qed

text \<open>
  C1, as stated, joins the paragraphs 1, 3 and 4. On \<open>five_page\<close> the first
  selector gives five paragraphs of which exactly these three qualify, and the
  synopsis is the first and the third only.
\<close>

theorem fourth_paragraph_not_joined:
  "select five_page (synopsis_selectors ! 0) = five_paragraphs
   \<and> length five_paragraphs = 5
   \<and> 30 < length (get_text (five_paragraphs ! 0))
   \<and> \<not> 30 < length (get_text (five_paragraphs ! 1))
   \<and> 30 < length (get_text (five_paragraphs ! 2))
   \<and> 30 < length (get_text (five_paragraphs ! 3))
   \<and> \<not> 30 < length (get_text (five_paragraphs ! 4))
   \<and> \<not> disallowed (get_text (five_paragraphs ! 0))
   \<and> \<not> disallowed (get_text (five_paragraphs ! 1))
   \<and> \<not> disallowed (get_text (five_paragraphs ! 2))
   \<and> \<not> disallowed (get_text (five_paragraphs ! 3))
   \<and> \<not> disallowed (get_text (five_paragraphs ! 4))
   \<and> extract_synopsis five_page =
       join '' '' [get_text (five_paragraphs ! 0), get_text (five_paragraphs ! 2)]
   \<and> extract_synopsis five_page \<noteq>
       join '' '' [get_text (five_paragraphs ! 0), get_text (five_paragraphs ! 2),
                  get_text (five_paragraphs ! 3)]"
  by code_simp

subsection \<open>Length of the synopsis\<close>

text \<open>
  C4, amended: the synopsis has at most 503 characters. When the joined paragraphs
  have more than 500 characters, it is their first 500 characters followed by three
  dots, 503 characters in all; otherwise it is the joined paragraphs.
\<close>

theorem extract_synopsis_length:
  "length (extract_synopsis sp) \<le> 503
   \<and> (length (join '' '' (selectors_loop sp synopsis_selectors [])) > 500 \<longrightarrow>
        extract_synopsis sp = take 500 (join '' '' (selectors_loop sp synopsis_selectors [])) @ ''...''
        \<and> length (extract_synopsis sp) = 503)
   \<and> (length (join '' '' (selectors_loop sp synopsis_selectors [])) \<le> 500 \<longrightarrow>
        extract_synopsis sp = join '' '' (selectors_loop sp synopsis_selectors []))"
  by (simp add: extract_synopsis_def Let_def)

theorem extract_synopsis_length_witness:
  "length (join '' '' (selectors_loop long_page synopsis_selectors [])) = 602
   \<and> extract_synopsis long_page =
       replicate 200 CHR ''a'' @ '' '' @ replicate 200 CHR ''a'' @ '' '' @ replicate 98 CHR ''a''
         @ ''...''
   \<and> length (extract_synopsis long_page) = 503
   \<and> length (join '' '' (selectors_loop five_page synopsis_selectors [])) \<le> 500
   \<and> extract_synopsis five_page = join '' '' (selectors_loop five_page synopsis_selectors [])"
proof -
  have j: "join '' '' (selectors_loop long_page synopsis_selectors []) =
      replicate 200 CHR ''a'' @ '' '' @ replicate 200 CHR ''a'' @ '' '' @ replicate 200 CHR ''a''"
    by code_simp
  then have l: "length (join '' '' (selectors_loop long_page synopsis_selectors [])) = 602"
    by simp
  have t: "take 500 (join '' '' (selectors_loop long_page synopsis_selectors [])) =
      replicate 200 CHR ''a'' @ '' '' @ replicate 200 CHR ''a'' @ '' '' @ replicate 98 CHR ''a''"
    unfolding j by code_simp
  have f: "length (join '' '' (selectors_loop five_page synopsis_selectors [])) \<le> 500"
    by code_simp
  from extract_synopsis_length [of long_page] l t
  have "extract_synopsis long_page =
       replicate 200 CHR ''a'' @ '' '' @ replicate 200 CHR ''a'' @ '' '' @ replicate 98 CHR ''a''
         @ ''...''"
    "length (extract_synopsis long_page) = 503" by simp_all
  moreover from extract_synopsis_length [of five_page] f
  have "extract_synopsis five_page = join '' '' (selectors_loop five_page synopsis_selectors [])"
    by blast
  ultimately show ?thesis using l f by simp
qed

text \<open>
  C4, as stated, bounds the synopsis by 500 characters. On \<open>long_page\<close> the joined
  paragraphs have 602 characters and the synopsis has 503.
\<close>

theorem synopsis_longer_than_500:
  "length (extract_synopsis long_page) = 503 \<and> \<not> length (extract_synopsis long_page) \<le> 500"
  by code_simp

section \<open>Fetcher and cache\<close>

lemma get_page_hit: "cache s u = Some body \<Longrightarrow> get_page net u True s = (Some body, s)"
  by (simp add: get_page_def)

lemma get_page_Some_cached:
  "get_page net u use_cache s = (Some body, s1) \<Longrightarrow> cache s1 u = Some body"
  by (auto simp: get_page_def Let_def split: option.splits reply.splits if_splits)

lemma get_page_sent:
  "sent (snd (get_page net u use_cache s)) = sent s
   \<or> sent (snd (get_page net u use_cache s)) = sent s @ [u]"
  by (auto simp: get_page_def Let_def split: option.splits reply.splits if_splits)

lemma get_page_None:
  "get_page net u True s = (None, s1) \<Longrightarrow> s1 = s\<lparr>sent := sent s @ [u]\<rparr> \<and> cache s u = None"
  by (auto simp: get_page_def Let_def split: option.splits reply.splits if_splits)

text \<open>
  C2, amended: a cache hit returns the cached body and leaves the scraper as it
  was, with nothing sent to the transport. When a first \<open>get_page(url, True)\<close>
  returns a body, a second one returns the same body from the cache, and the two
  calls send at most one request. When the first call fails, nothing is stored, and
  the second call sends the request again.
\<close>

theorem get_page_cache_once:
  "(cache s u = Some body \<longrightarrow> get_page net u True s = (Some body, s))
   \<and> (get_page net u True s = (Some body, s1) \<longrightarrow>
        get_page net u True s1 = (Some body, s1)
        \<and> (sent s1 = sent s \<or> sent s1 = sent s @ [u]))
   \<and> (get_page net u True s = (None, s1) \<longrightarrow>
        sent s1 = sent s @ [u] \<and> cache s1 = cache s
        \<and> (sent (snd (get_page net u True s1)) = sent s @ [u, u]))"
proof (intro conjI impI)
  assume "cache s u = Some body"
  then show "get_page net u True s = (Some body, s)" by (rule get_page_hit)
next
  assume a: "get_page net u True s = (Some body, s1)"
  then have "cache s1 u = Some body" by (rule get_page_Some_cached)
  then show "get_page net u True s1 = (Some body, s1)" by (rule get_page_hit)
  from get_page_sent [of net u True s] a
  show "sent s1 = sent s \<or> sent s1 = sent s @ [u]" by simp
next
  assume a: "get_page net u True s = (None, s1)"
  then have s1: "s1 = s\<lparr>sent := sent s @ [u]\<rparr>" and c: "cache s u = None"
    using get_page_None by blast+
  from s1 show "sent s1 = sent s @ [u]" by simp
  from s1 show "cache s1 = cache s" by simp
  from s1 c show "sent (snd (get_page net u True s1)) = sent s @ [u, u]"
    by (auto simp: get_page_def Let_def split: reply.splits)
qed

theorem get_page_cache_once_witness:
  "get_page net_ok base_url True new_scraper =
     (Some ''<html>page</html>'',
      \<lparr>cache = [base_url \<mapsto> ''<html>page</html>''], sent = [base_url]\<rparr>)
   \<and> get_page net_ok base_url True (snd (get_page net_ok base_url True new_scraper)) =
     (Some ''<html>page</html>'',
      \<lparr>cache = [base_url \<mapsto> ''<html>page</html>''], sent = [base_url]\<rparr>)
   \<and> get_page net_down base_url True new_scraper = (None, \<lparr>cache = Map.empty, sent = [base_url]\<rparr>)
   \<and> sent (snd (get_page net_down base_url True \<lparr>cache = Map.empty, sent = [base_url]\<rparr>)) =
       [base_url, base_url]"
proof -
  have a: "get_page net_ok base_url True new_scraper =
     (Some ''<html>page</html>'',
      \<lparr>cache = [base_url \<mapsto> ''<html>page</html>''], sent = [base_url]\<rparr>)"
    by (simp add: get_page_def new_scraper_def net_ok_def raise_for_status_def)
  have b: "get_page net_down base_url True new_scraper =
     (None, \<lparr>cache = Map.empty, sent = [base_url]\<rparr>)"
    by (simp add: get_page_def new_scraper_def net_down_def)
  from get_page_cache_once [of new_scraper base_url "''<html>page</html>''" net_ok
      "\<lparr>cache = [base_url \<mapsto> ''<html>page</html>''], sent = [base_url]\<rparr>"] a
  have "get_page net_ok base_url True
          \<lparr>cache = [base_url \<mapsto> ''<html>page</html>''], sent = [base_url]\<rparr> =
     (Some ''<html>page</html>'',
      \<lparr>cache = [base_url \<mapsto> ''<html>page</html>''], sent = [base_url]\<rparr>)" by blast
  moreover from get_page_cache_once [of new_scraper base_url _ net_down
      "\<lparr>cache = Map.empty, sent = [base_url]\<rparr>"] b
  have "sent (snd (get_page net_down base_url True \<lparr>cache = Map.empty, sent = [base_url]\<rparr>)) =
       [] @ [base_url, base_url]" by (simp add: new_scraper_def)
  ultimately show ?thesis using a b by simp
qed

text \<open>
  C2, as stated, allows one request for two calls on every URL. On a network where
  every request fails the two calls send two requests.
\<close>

theorem failed_fetch_sent_twice:
  "sent (snd (get_page net_down base_url True (snd (get_page net_down base_url True new_scraper))))
     = [base_url, base_url]
   \<and> length (sent (snd (get_page net_down base_url True
                (snd (get_page net_down base_url True new_scraper))))) = 2"
  by (simp add: get_page_def new_scraper_def net_down_def)

text \<open>
  C9, amended: when the GET is sent (the cache is not used, or has no entry for
  the URL) and it raises a transport error or returns a status from 400 to 599,
  \<open>get_page\<close> returns \<open>None\<close> and the cache is as before. These are the statuses for
  which \<open>raise_for_status\<close> raises.
\<close>

theorem get_page_failure:
  assumes "\<not> use_cache \<or> cache s u = None"
    and "net (length (sent s)) u = RequestError
         \<or> (\<exists>status body. net (length (sent s)) u = Reply status body
               \<and> 400 \<le> status \<and> status < 600)"
  shows "fst (get_page net u use_cache s) = None
         \<and> cache (snd (get_page net u use_cache s)) = cache s
         \<and> sent (snd (get_page net u use_cache s)) = sent s @ [u]"
  using assms by (auto simp: get_page_def Let_def raise_for_status_def)

theorem get_page_failure_witness:
  "get_page net_down base_url True new_scraper = (None, \<lparr>cache = Map.empty, sent = [base_url]\<rparr>)
   \<and> net_not_found 0 base_url = Reply 404 ''<html>not found</html>''
   \<and> fst (get_page net_not_found base_url False new_scraper) = None
   \<and> cache (snd (get_page net_not_found base_url False new_scraper)) = Map.empty"
proof -
  have n: "net_not_found (length (sent new_scraper)) base_url = RequestError
         \<or> (\<exists>status body. net_not_found (length (sent new_scraper)) base_url = Reply status body
               \<and> 400 \<le> status \<and> status < 600)"
    by (simp add: net_not_found_def)
  have c: "\<not> False \<or> cache new_scraper base_url = None" by simp
  have d: "net_down (length (sent new_scraper)) base_url = RequestError
         \<or> (\<exists>status body. net_down (length (sent new_scraper)) base_url = Reply status body
               \<and> 400 \<le> status \<and> status < 600)"
    by (simp add: net_down_def)
  have e: "\<not> True \<or> cache new_scraper base_url = None" by (simp add: new_scraper_def)
  from get_page_failure [where net = net_not_found and use_cache = False and s = new_scraper
        and u = base_url, OF c n]
    get_page_failure [where net = net_down and use_cache = True and s = new_scraper
        and u = base_url, OF e d]
  show ?thesis
    by (cases "get_page net_down base_url True new_scraper")
       (simp add: new_scraper_def net_not_found_def)
qed

text \<open>
  C9, as stated, covers every status that is not 2xx. A reply with status 300 does
  not make \<open>raise_for_status\<close> raise: its body is returned and stored in the cache.
\<close>

theorem status_300_is_cached:
  "net_choices 0 base_url = Reply 300 ''<html>choices</html>''
   \<and> fst (get_page net_choices base_url True new_scraper) = Some ''<html>choices</html>''
   \<and> cache (snd (get_page net_choices base_url True new_scraper)) base_url =
       Some ''<html>choices</html>''
   \<and> cache new_scraper base_url = None"
  by (simp add: get_page_def new_scraper_def net_choices_def raise_for_status_def)

section \<open>Search and the sorted list\<close>

lemma search_loop_filter:
  "search_loop q xs acc = acc @ filter (\<lambda>a. py_in q (lower (title a))) xs"
proof (induction xs arbitrary: acc)
  case Nil
  then show ?case by simp
next
  case (Cons a xs)
  show ?case unfolding search_loop.simps Let_def Cons.IH by simp
qed

lemma sorted_map_take: "sorted (map f xs) \<Longrightarrow> sorted (map f (take n xs))"
  unfolding take_map [symmetric] by (rule sorted_wrt_take)

text \<open>
  C5, amended: let \<open>q\<close> be the query in lower case and stripped. When \<open>q\<close> is
  empty the search returns nothing. Otherwise it returns the records whose title in
  lower case contains \<open>q\<close>, sorted (stably) by the key (title does not start with
  \<open>q\<close>, length of the title), and cut after 25. In every case the result is
  sorted by that key, has at most 25 records, all of them matching records of the
  input, and all matching records when there are at most 25. For the query
  \<open>naruto\<close> over the three Naruto titles the order is \<open>Naruto\<close>,
  \<open>Naruto Shippuden\<close>, \<open>Boruto: Naruto Next\<close>.
\<close>

theorem search_in_ranked:
  "(strip (lower query) = [] \<longrightarrow> search_in all_anime query = [])
   \<and> (strip (lower query) \<noteq> [] \<longrightarrow>
        search_in all_anime query =
          take 25 (sort_key (relevance (strip (lower query)))
                     (filter (\<lambda>a. py_in (strip (lower query)) (lower (title a))) all_anime)))
   \<and> sorted (map (relevance (strip (lower query))) (search_in all_anime query))
   \<and> length (search_in all_anime query) \<le> 25
   \<and> (\<forall>a\<in>set (search_in all_anime query).
         a \<in> set all_anime \<and> py_in (strip (lower query)) (lower (title a)))
   \<and> (strip (lower query) \<noteq> []
        \<and> length (filter (\<lambda>a. py_in (strip (lower query)) (lower (title a))) all_anime) \<le> 25 \<longrightarrow>
        mset (search_in all_anime query) =
          mset (filter (\<lambda>a. py_in (strip (lower query)) (lower (title a))) all_anime))
   \<and> fst (search_anime net parse query s) =
        search_in (fst (scrape_anime_list net parse None s)) query"
proof -
  define q where "q = strip (lower query)"
  define ms where "ms = filter (\<lambda>a. py_in q (lower (title a))) all_anime"
  define r where "r = sort_key (relevance q) ms"
  have e: "q = [] \<longrightarrow> search_in all_anime query = []"
    by (simp add: search_in_def q_def)
  have n: "q \<noteq> [] \<longrightarrow> search_in all_anime query = take 25 r"
    by (simp add: search_in_def q_def r_def ms_def search_loop_filter Let_def)
  have "sorted (map (relevance q) (take 25 r))"
    unfolding r_def by (rule sorted_map_take) (rule sorted_sort_key)
  with e n have so: "sorted (map (relevance q) (search_in all_anime query))"
    by (cases "q = []") simp_all
  from e n have le: "length (search_in all_anime query) \<le> 25"
    by (cases "q = []") simp_all
  have "set (take 25 r) \<subseteq> set ms" using set_take_subset [of 25 r] by (simp add: r_def)
  with e n have me: "\<forall>a\<in>set (search_in all_anime query). a \<in> set all_anime \<and> py_in q (lower (title a))"
    by (cases "q = []") (auto simp: ms_def)
  have al: "q \<noteq> [] \<and> length ms \<le> 25 \<longrightarrow> mset (search_in all_anime query) = mset ms"
    using n by (simp add: r_def)
  have sa: "fst (search_anime net parse query s) =
        search_in (fst (scrape_anime_list net parse None s)) query"
    by (simp add: search_anime_def split: prod.splits)
  from e n so le me al sa show ?thesis unfolding q_def ms_def r_def by blast
qed

theorem search_in_ranked_witness:
  "strip (lower ''naruto'') \<noteq> []
   \<and> search_in naruto_list ''naruto'' = [naruto_list ! 2, naruto_list ! 0, naruto_list ! 1]
   \<and> map title (search_in naruto_list ''naruto'') =
       [''Naruto'', ''Naruto Shippuden'', ''Boruto: Naruto Next'']
   \<and> map (relevance ''naruto'') (search_in naruto_list ''naruto'') =
       [(False, 6), (False, 16), (True, 19)]
   \<and> map title (fst (search_anime net_ok list_parse ''naruto'' new_scraper)) =
       [''Naruto'', ''Naruto Shippuden'', ''Boruto: Naruto Next'']"
proof -
  have q: "strip (lower ''naruto'') = ''naruto''" by code_simp
  then have h: "strip (lower ''naruto'') \<noteq> []" by simp
  have f: "filter (\<lambda>a. py_in ''naruto'' (lower (title a))) naruto_list = naruto_list"
    by code_simp
  have k: "sort_key (relevance ''naruto'') naruto_list =
      [naruto_list ! 2, naruto_list ! 0, naruto_list ! 1]" by code_simp
  have l: "length naruto_list = 3" by (simp add: naruto_list_def)
  from search_in_ranked [of "''naruto''" naruto_list] h
  have "search_in naruto_list ''naruto'' =
          take 25 (sort_key (relevance (strip (lower ''naruto'')))
                     (filter (\<lambda>a. py_in (strip (lower ''naruto'')) (lower (title a))) naruto_list))"
    by blast
  then have v: "search_in naruto_list ''naruto'' = [naruto_list ! 2, naruto_list ! 0, naruto_list ! 1]"
    unfolding q f k by simp
  have t: "map title [naruto_list ! 2, naruto_list ! 0, naruto_list ! 1] =
       [''Naruto'', ''Naruto Shippuden'', ''Boruto: Naruto Next'']"
    by (simp add: naruto_list_def)
  have r: "map (relevance ''naruto'') [naruto_list ! 2, naruto_list ! 0, naruto_list ! 1] =
       [(False, 6), (False, 16), (True, 19)]" by code_simp
  have p: "map title (fst (search_anime net_ok list_parse ''naruto'' new_scraper)) =
       [''Naruto'', ''Naruto Shippuden'', ''Boruto: Naruto Next'']" by code_simp
  from h v t r p show ?thesis by simp
qed

text \<open>
  C5, as stated, returns for every query the records whose title contains the
  query. For the query of one space the title \<open>Naruto Shippuden\<close> contains the
  query, and the search returns nothing: the query is stripped first, and an empty
  one is refused.
\<close>

theorem blank_query_finds_nothing:
  "py_in (lower '' '') (lower (title (naruto_list ! 0)))
   \<and> naruto_list ! 0 \<in> set naruto_list
   \<and> search_in naruto_list '' '' = []"
  by code_simp

lemma anime_links_loop_subseq:
  "\<exists>ys. anime_links_loop links acc = acc @ ys \<and> subseq (map url ys) (map href links)"
proof (induction links arbitrary: acc)
  case Nil
  then show ?case by simp
next
  case (Cons e links)
  obtain ys where ys: "anime_links_loop links acc = acc @ ys" "subseq (map url ys) (map href links)"
    using Cons.IH by blast
  obtain zs where zs: "anime_links_loop links (acc @ [\<lparr>title = strip (get_text e), url = href e\<rparr>]) =
      (acc @ [\<lparr>title = strip (get_text e), url = href e\<rparr>]) @ zs"
      "subseq (map url zs) (map href links)"
    using Cons.IH by blast
  have "anime_links_loop (e # links) acc = anime_links_loop links acc
        \<or> anime_links_loop (e # links) acc =
            anime_links_loop links (acc @ [\<lparr>title = strip (get_text e), url = href e\<rparr>])"
    by (simp add: Let_def)
  then show ?case
  proof
    assume a: "anime_links_loop (e # links) acc = anime_links_loop links acc"
    have "anime_links_loop (e # links) acc = acc @ ys" using a ys(1) by (simp only:)
    moreover have "subseq (map url ys) (map href (e # links))" using ys(2) by auto
    ultimately show ?thesis by blast
  next
    assume a: "anime_links_loop (e # links) acc =
            anime_links_loop links (acc @ [\<lparr>title = strip (get_text e), url = href e\<rparr>])"
    have "anime_links_loop (e # links) acc =
            acc @ (\<lparr>title = strip (get_text e), url = href e\<rparr> # zs)"
      using a zs(1) by (simp only: append_assoc append_Cons append_Nil)
    moreover have "subseq (map url (\<lparr>title = strip (get_text e), url = href e\<rparr> # zs))
        (map href (e # links))" using zs(2) by auto
    ultimately show ?thesis by blast
  qed
qed

text \<open>
  C10: for every network, parser, letter filter and scraper state, the list that
  \<open>scrape_anime_list\<close> returns is sorted in non-decreasing order of
  \<open>title.lower()\<close>; the link extractor itself keeps the order of the anchors of
  the page.
\<close>

theorem scrape_anime_list_sorted:
  "sorted (map (\<lambda>a. lower (title a)) (fst (scrape_anime_list net parse letter s)))
   \<and> subseq (map url (extract_anime_links sp)) (map href (anchors sp))"
proof
  show "sorted (map (\<lambda>a. lower (title a)) (fst (scrape_anime_list net parse letter s)))"
    by (simp add: scrape_anime_list_def Let_def split: prod.splits option.splits)
  show "subseq (map url (extract_anime_links sp)) (map href (anchors sp))"
    using anime_links_loop_subseq [of "anchors sp" "[]"] by (auto simp: extract_anime_links_def)
qed

theorem scrape_anime_list_sorted_witness:
  "map title (extract_anime_links list_page) =
     [''Naruto Shippuden'', ''Boruto: Naruto Next'', ''Naruto'']
   \<and> map title (fst (scrape_anime_list net_ok list_parse None new_scraper)) =
     [''Boruto: Naruto Next'', ''Naruto'', ''Naruto Shippuden'']
   \<and> map title (fst (scrape_anime_list net_ok list_parse (Some ''N'') new_scraper)) =
     [''Naruto'', ''Naruto Shippuden'']
   \<and> sorted [''boruto: naruto next'', ''naruto'', ''naruto shippuden'']
   \<and> fst (scrape_anime_list net_down list_parse None new_scraper) = []"
proof -
  have a: "map title (extract_anime_links list_page) =
     [''Naruto Shippuden'', ''Boruto: Naruto Next'', ''Naruto'']" by code_simp
  have b: "map title (fst (scrape_anime_list net_ok list_parse None new_scraper)) =
     [''Boruto: Naruto Next'', ''Naruto'', ''Naruto Shippuden'']" by code_simp
  have c: "map title (fst (scrape_anime_list net_ok list_parse (Some ''N'') new_scraper)) =
     [''Naruto'', ''Naruto Shippuden'']" by code_simp
  have d: "fst (scrape_anime_list net_down list_parse None new_scraper) = []" by code_simp
  have "map (\<lambda>a. lower (title a)) (fst (scrape_anime_list net_ok list_parse None new_scraper)) =
      map lower (map title (fst (scrape_anime_list net_ok list_parse None new_scraper)))"
    by simp
  also have "\<dots> = [''boruto: naruto next'', ''naruto'', ''naruto shippuden'']"
    unfolding b by code_simp
  finally have "sorted [''boruto: naruto next'', ''naruto'', ''naruto shippuden'']"
    using scrape_anime_list_sorted [of net_ok list_parse None new_scraper] by simp
  with a b c d show ?thesis by simp
qed


end
